theory Spec2Isabelle
  imports Complex_Main "HOL-Library.Log_Nat"
begin

section \<open>Fast-doubling Fibonacci engine of fibonacci.c\<close>

text \<open>
  The program computes Fibonacci numbers with GMP integers. A GMP integer (\<open>mpz_t\<close>) is
  an exact integer, modelled as \<^typ>\<open>int\<close>; every GMP call used by the program is a
  function on \<^typ>\<open>int\<close> that returns the value the call stores in its first argument.
  The index \<open>N\<close> is a C \<open>unsigned long\<close>; the engine only halves it and tests its
  parity, so no operation on it can wrap and it is modelled as \<^typ>\<open>nat\<close>.
\<close>

subsection \<open>GMP primitives\<close>

definition mpz_init :: int where
  "mpz_init = 0"

definition mpz_set_ui :: "nat \<Rightarrow> int" where
  "mpz_set_ui n = int n"

definition mpz_mul_2exp :: "int \<Rightarrow> nat \<Rightarrow> int" where
  "mpz_mul_2exp x n = push_bit n x"

definition mpz_sub :: "int \<Rightarrow> int \<Rightarrow> int" where
  "mpz_sub x y = x - y"

definition mpz_add :: "int \<Rightarrow> int \<Rightarrow> int" where
  "mpz_add x y = x + y"

definition mpz_mul :: "int \<Rightarrow> int \<Rightarrow> int" where
  "mpz_mul x y = x * y"

subsection \<open>One activation of \<open>fast_fib_calc\<close>\<close>

text \<open>
  The cells an activation of \<open>fast_fib_calc\<close> reads and writes: the caller's output
  cells \<open>A\<close> and \<open>B\<close> and the four locals. In the program \<open>A\<close> and \<open>B\<close> are always two
  distinct cells (\<open>FIB_N\<close>, \<open>FIB_N1\<close> in \<open>main\<close>, the locals \<open>F0\<close>, \<open>F1\<close> in a
  recursive call), so they are two fields.
\<close>

record frame =
  A :: int
  B :: int
  F0 :: int
  F1 :: int
  TEMP :: int
  F0_Q :: int

text \<open>The three statements of the first \<open>omp section\<close> (lines 75, 77, 79).\<close>

definition sec1_shift :: "frame \<Rightarrow> frame" where
  "sec1_shift s = s\<lparr>TEMP := mpz_mul_2exp (F1 s) 1\<rparr>"

definition sec1_sub :: "frame \<Rightarrow> frame" where
  "sec1_sub s = s\<lparr>TEMP := mpz_sub (TEMP s) (F0 s)\<rparr>"

definition sec1_mul :: "frame \<Rightarrow> frame" where
  "sec1_mul s = s\<lparr>A := mpz_mul (F0 s) (TEMP s)\<rparr>"

text \<open>The three statements of the second \<open>omp section\<close> (lines 84, 86, 88).\<close>

definition sec2_sq1 :: "frame \<Rightarrow> frame" where
  "sec2_sq1 s = s\<lparr>B := mpz_mul (F1 s) (F1 s)\<rparr>"

definition sec2_sq0 :: "frame \<Rightarrow> frame" where
  "sec2_sq0 s = s\<lparr>F0_Q := mpz_mul (F0 s) (F0 s)\<rparr>"

definition sec2_add :: "frame \<Rightarrow> frame" where
  "sec2_add s = s\<lparr>B := mpz_add (B s) (F0_Q s)\<rparr>"

definition section1 :: "frame \<Rightarrow> frame" where
  "section1 s = sec1_mul (sec1_sub (sec1_shift s))"

definition section2 :: "frame \<Rightarrow> frame" where
  "section2 s = sec2_add (sec2_sq0 (sec2_sq1 s))"

text \<open>Lines 93 to 97: \<open>mpz_swap(A, B)\<close>, then \<open>mpz_add(B, B, A)\<close>, when \<open>N\<close> is odd.\<close>

definition mpz_swap_A_B :: "frame \<Rightarrow> frame" where
  "mpz_swap_A_B s = s\<lparr>A := B s, B := A s\<rparr>"

definition mpz_add_B_B_A :: "frame \<Rightarrow> frame" where
  "mpz_add_B_B_A s = s\<lparr>B := mpz_add (B s) (A s)\<rparr>"

definition parity_fix :: "nat \<Rightarrow> frame \<Rightarrow> frame" where
  "parity_fix N s = (if N mod 2 \<noteq> 0 then mpz_add_B_B_A (mpz_swap_A_B s) else s)"

text \<open>
  The frame after the recursive call returned \<open>(f0, f1)\<close> into the locals \<open>F0\<close>, \<open>F1\<close>:
  \<open>a\<close> and \<open>b\<close> are what the caller's cells hold on entry, \<open>TEMP\<close> and \<open>F0_Q\<close> are fresh
  from \<open>mpz_init\<close>.
\<close>

definition enter :: "int \<times> int \<Rightarrow> int \<times> int \<Rightarrow> frame" where
  "enter ab f = \<lparr>A = fst ab, B = snd ab, F0 = fst f, F1 = snd f,
                 TEMP = mpz_init, F0_Q = mpz_init\<rparr>"

definition outputs :: "frame \<Rightarrow> int \<times> int" where
  "outputs s = (A s, B s)"

subsection \<open>The recursion, compiled without OpenMP\<close>

text \<open>
  \<open>fast_fib_calc N ab\<close>: \<open>ab\<close> is the content of the two output cells when the call is
  made, the result is their content when it returns. Without OpenMP the pragmas are
  ignored and the two blocks run in the order they are written.
\<close>

function fast_fib_calc :: "nat \<Rightarrow> int \<times> int \<Rightarrow> int \<times> int" where
  "fast_fib_calc N ab =
     (if N = 0 then (mpz_set_ui 0, mpz_set_ui 1)
      else outputs (parity_fix N (section2 (section1
             (enter ab (fast_fib_calc (N div 2) (mpz_init, mpz_init)))))))"
  by pat_completeness auto
termination
  by (relation "measure fst") auto

declare fast_fib_calc.simps [simp del]

subsection \<open>The recursion with a bound on the depth of the call chain\<close>

text \<open>
  The same function with a budget of nested activations: \<open>fast_fib_calc_fuel d N ab\<close>
  is \<open>None\<close> when answering the call would need more than \<open>d\<close> activations on the
  stack, the top one included.
\<close>

fun fast_fib_calc_fuel :: "nat \<Rightarrow> nat \<Rightarrow> int \<times> int \<Rightarrow> (int \<times> int) option" where
  "fast_fib_calc_fuel 0 N ab = None"
| "fast_fib_calc_fuel (Suc d) N ab =
     (if N = 0 then Some (mpz_set_ui 0, mpz_set_ui 1)
      else case fast_fib_calc_fuel d (N div 2) (mpz_init, mpz_init) of
             None \<Rightarrow> None
           | Some f \<Rightarrow> Some (outputs (parity_fix N (section2 (section1 (enter ab f))))))"

subsection \<open>The recursion, compiled with OpenMP\<close>

text \<open>
  \<open>#pragma omp parallel sections if (N >= 50000000)\<close>: at or above the threshold the
  two sections run on two threads, each executing its three GMP calls in program order;
  an execution is an interleaving of the two statement lists, chosen by a list of
  booleans (\<open>True\<close>: the first section moves next). The region ends with a barrier, so
  the parity correction starts when both lists are used up. Below the threshold one
  thread runs both sections, in an order OpenMP leaves open.
\<close>

fun interleave :: "bool list \<Rightarrow> 'a list \<Rightarrow> 'a list \<Rightarrow> 'a list" where
  "interleave cs [] ys = ys"
| "interleave cs xs [] = xs"
| "interleave [] xs ys = xs @ ys"
| "interleave (c # cs) (x # xs) (y # ys) =
     (if c then x # interleave cs xs (y # ys) else y # interleave cs (x # xs) ys)"

definition run :: "(frame \<Rightarrow> frame) list \<Rightarrow> frame \<Rightarrow> frame" where
  "run stmts s = fold (\<lambda>stmt. stmt) stmts s"

definition section1_stmts :: "(frame \<Rightarrow> frame) list" where
  "section1_stmts = [sec1_shift, sec1_sub, sec1_mul]"

definition section2_stmts :: "(frame \<Rightarrow> frame) list" where
  "section2_stmts = [sec2_sq1, sec2_sq0, sec2_add]"

text \<open>
  The concurrency configuration: the split threshold (50000000 in the source), and for
  the activation with index \<open>N\<close> the order of the sections when one thread runs them
  and the interleaving when two do.
\<close>

record omp_config =
  threshold :: nat
  first_section1 :: "nat \<Rightarrow> bool"
  schedule :: "nat \<Rightarrow> bool list"

definition omp_sections :: "omp_config \<Rightarrow> nat \<Rightarrow> frame \<Rightarrow> frame" where
  "omp_sections cfg N s =
     (if N \<ge> threshold cfg
      then run (interleave (schedule cfg N) section1_stmts section2_stmts) s
      else if first_section1 cfg N then section2 (section1 s)
      else section1 (section2 s))"

function fast_fib_calc_omp :: "omp_config \<Rightarrow> nat \<Rightarrow> int \<times> int \<Rightarrow> int \<times> int" where
  "fast_fib_calc_omp cfg N ab =
     (if N = 0 then (mpz_set_ui 0, mpz_set_ui 1)
      else outputs (parity_fix N (omp_sections cfg N
             (enter ab (fast_fib_calc_omp cfg (N div 2) (mpz_init, mpz_init))))))"
  by pat_completeness auto
termination
  by (relation "measure (\<lambda>(cfg, N, ab). N)") auto

declare fast_fib_calc_omp.simps [simp del]

subsection \<open>The linear recurrence\<close>

text \<open>The oracle of the specification: \<open>F(0) = 0\<close>, \<open>F(1) = 1\<close>, \<open>F(n) = F(n-1) + F(n-2)\<close>.\<close>

fun fib_rec :: "nat \<Rightarrow> int" where
  "fib_rec 0 = 0"
| "fib_rec (Suc 0) = 1"
| "fib_rec (Suc (Suc n)) = fib_rec (Suc n) + fib_rec n"

section \<open>The command-line program around the engine\<close>

subsection \<open>Decimal text\<close>

text \<open>
  \<open>decimal n\<close> is what \<open>printf\<close> prints for \<open>%lu\<close> and \<open>%zu\<close>, and what
  \<open>mpz_get_str(NULL, 10, A)\<close> returns for a non-negative \<open>A\<close>: the decimal digits, most
  significant first, no leading zero.
\<close>

definition digit_char :: "nat \<Rightarrow> char" where
  "digit_char d = ''0123456789'' ! d"

function decimal :: "nat \<Rightarrow> string" where
  "decimal n = (if n < 10 then [digit_char n] else decimal (n div 10) @ [digit_char (n mod 10)])"
  by pat_completeness auto
termination
  by (relation "measure (\<lambda>n. n)") auto

declare decimal.simps [simp del]

definition mpz_get_str :: "int \<Rightarrow> string" where
  "mpz_get_str a = (if a < 0 then CHR ''-'' # decimal (nat (- a)) else decimal (nat a))"

definition nl :: string where
  "nl = [CHR 0x0A]"

definition apostrophe :: string where
  "apostrophe = [CHR 0x27]"

text \<open>\<open>%50s\<close>: right-justified in a field of at least 50 characters, padded with spaces.\<close>

definition pad_left :: "nat \<Rightarrow> string \<Rightarrow> string" where
  "pad_left w s = replicate (w - length s) CHR '' '' @ s"

subsection \<open>What the program does to the outside\<close>

text \<open>
  A run is the list of its effects in order. \<open>Print_timing\<close> stands for the \<open>printf\<close>
  calls whose text is a measured time (lines 267 and 284 to 286); \<open>Compute N\<close> marks
  the call \<open>fast_fib_calc(N, FIB_N, FIB_N1)\<close> of \<open>main\<close>; \<open>Write_file name text\<close> is a file
  created with that content; \<open>Read_past_end\<close> is a \<open>%s\<close> whose argument points
  beyond the terminator of the string.
\<close>

datatype event =
    Print string
  | Print_timing
  | Compute nat
  | Write_file string string
  | Read_past_end

subsection \<open>\<open>print_fib_info\<close>\<close>

text \<open>
  \<open>mpz_sizeinbase(A, 10)\<close> is GMP's; its manual promises the number of decimal digits of
  \<open>A\<close> (sign ignored) or one more, and 1 for zero. It is the parameter \<open>sz\<close> of the model.
  \<open>exact_size\<close> and \<open>over_size\<close> are the two functions that contract allows.
\<close>

definition exact_size :: "int \<Rightarrow> nat" where
  "exact_size a = length (decimal (nat \<bar>a\<bar>))"

definition over_size :: "int \<Rightarrow> nat" where
  "over_size a = (if a = 0 then 1 else Suc (exact_size a))"

text \<open>
  Lines 118 to 138: the digits by division and modulo. The block is entered with
  \<open>NUM_DIGITS > 1000000\<close> only, so \<open>NUM_DIGITS - 50\<close> does not wrap; \<open>mpz_div\<close> rounds
  down and \<open>mpz_mod\<close> is never negative, as \<open>div\<close> and \<open>mod\<close> by a positive number.
\<close>

definition print_divmod :: "int \<Rightarrow> nat \<Rightarrow> event list" where
  "print_divmod a NUM_DIGITS =
     (let FIRST_DIGITS = mpz_get_str (a div 10 ^ (NUM_DIGITS - 50));
          LAST_DIGITS = mpz_get_str (a mod 10 ^ 50)
      in [Print (''First ~50 digits: '' @ FIRST_DIGITS @ nl),
          Print (''Last 50 digits:   '' @ pad_left 50 LAST_DIGITS @ nl)])"

definition FILENAME :: "nat \<Rightarrow> string" where
  "FILENAME N = ''Fibonacci_'' @ decimal N @ ''.txt''"

text \<open>Lines 153 to 170; \<open>can_open name\<close> says whether \<open>fopen(name, "w")\<close> succeeds.\<close>

definition save_to_file :: "(string \<Rightarrow> bool) \<Rightarrow> nat \<Rightarrow> string \<Rightarrow> event list" where
  "save_to_file can_open N FIB_STR =
     Print (''Writing to file '' @ FILENAME N @ ''... '') #
     (if can_open (FILENAME N)
      then [Write_file (FILENAME N) (''F('' @ decimal N @ '') = '' @ FIB_STR @ nl),
            Print (''Number saved to: '' @ FILENAME N @ nl)]
      else [Print (''failed.'' @ nl),
            Print (''Couldn'' @ apostrophe @ ''t create file '' @ FILENAME N @ nl)])"

text \<open>Lines 174 to 186: the digits from the decimal string.\<close>

definition display :: "string \<Rightarrow> nat \<Rightarrow> event list" where
  "display FIB_STR NUM_DIGITS =
     (if NUM_DIGITS > 100
      then [Print (''First 50 digits: '' @ take 50 FIB_STR @ nl),
            (if NUM_DIGITS - 50 \<le> length FIB_STR
             then Print (''Last 50 digits:  '' @ drop (NUM_DIGITS - 50) FIB_STR @ nl)
             else Read_past_end)]
      else [Print (''Full number: '' @ FIB_STR @ nl)])"

text \<open>Line 113.\<close>

definition print_digit_count :: "nat \<Rightarrow> nat \<Rightarrow> event" where
  "print_digit_count N NUM_DIGITS =
     Print (''F('' @ decimal N @ '') has '' @ decimal NUM_DIGITS @ '' digits'' @ nl)"

text \<open>
  The whole function: \<open>FIB_STR\<close> is \<open>None\<close> while the pointer is \<open>NULL\<close>.
\<close>

definition print_fib_info ::
  "(int \<Rightarrow> nat) \<Rightarrow> (string \<Rightarrow> bool) \<Rightarrow> int \<Rightarrow> nat \<Rightarrow> bool \<Rightarrow> event list" where
  "print_fib_info sz can_open a N SAVE =
     (let NUM_DIGITS = sz a
      in if NUM_DIGITS > 1000000 \<and> \<not> SAVE
         then print_digit_count N NUM_DIGITS # print_divmod a NUM_DIGITS
         else
           let FIB_STR = (if SAVE \<or> NUM_DIGITS \<le> 100 \<or> NUM_DIGITS \<le> 1000000
                          then Some (mpz_get_str a) else None)
           in print_digit_count N NUM_DIGITS #
              (case FIB_STR of
                 Some str \<Rightarrow> (if SAVE then save_to_file can_open N str else [])
               | None \<Rightarrow> []) @
              (case FIB_STR of
                 Some str \<Rightarrow> display str NUM_DIGITS
               | None \<Rightarrow> []))"

subsection \<open>\<open>print_usage\<close> and the argument loop of \<open>main\<close>\<close>

definition print_usage :: "string \<Rightarrow> event list" where
  "print_usage PROGRAM_NAME =
     [Print (''Usage: '' @ PROGRAM_NAME @ '' [-s] [-h] [N]'' @ nl),
      Print (''  -s             Save result to file (optional)'' @ nl),
      Print (''  -h             Show this help message'' @ nl),
      Print (''  N              Fibonacci number to compute (default: 20000000)'' @ nl),
      Print (nl @ ''Examples:'' @ nl),
      Print (''  '' @ PROGRAM_NAME @ ''             # Compute F(20000000), don''
               @ apostrophe @ ''t save'' @ nl),
      Print (''  '' @ PROGRAM_NAME @ '' -s          # Compute F(20000000), save to file'' @ nl),
      Print (''  '' @ PROGRAM_NAME @ '' -s 1000000  # Compute F(1000000), save to file'' @ nl),
      Print (''  '' @ PROGRAM_NAME @ '' 100         # Compute F(100), don''
               @ apostrophe @ ''t save'' @ nl)]"

text \<open>
  \<open>strtoul(s, &ENDPTR, 10)\<close> of the C library, for a 64-bit \<open>unsigned long\<close>: white space
  is skipped, one sign is accepted, the longest run of decimal digits is converted; with
  no digit nothing is consumed and the value is 0; a value that does not fit is
  \<open>ULONG_MAX\<close>; after a minus sign the value is negated in \<open>unsigned long\<close>. The result
  is the value and the text \<open>ENDPTR\<close> points to.
\<close>

definition ULONG_MAX :: nat where
  "ULONG_MAX = 2 ^ 64 - 1"

definition isspace :: "char \<Rightarrow> bool" where
  "isspace c = (c \<in> set [CHR '' '', CHR 0x09, CHR 0x0A, CHR 0x0B, CHR 0x0C, CHR 0x0D])"

definition isdigit :: "char \<Rightarrow> bool" where
  "isdigit c = (c \<in> set ''0123456789'')"

definition digit_value :: "char \<Rightarrow> nat" where
  "digit_value c = of_char c - 48"

definition digits_value :: "string \<Rightarrow> nat" where
  "digits_value ds = foldl (\<lambda>v c. 10 * v + digit_value c) 0 ds"

definition strtoul :: "string \<Rightarrow> nat \<times> string" where
  "strtoul s =
     (let s1 = dropWhile isspace s;
          neg = (s1 \<noteq> [] \<and> hd s1 = CHR ''-'');
          s2 = (if s1 \<noteq> [] \<and> (hd s1 = CHR ''-'' \<or> hd s1 = CHR ''+'') then tl s1 else s1);
          ds = takeWhile isdigit s2;
          v = digits_value ds
      in if ds = [] then (0, s)
         else (if v > ULONG_MAX then ULONG_MAX
               else if neg then (2 ^ 64 - v) mod 2 ^ 64
               else v,
               dropWhile isdigit s2))"

text \<open>
  Lines 218 to 247. \<open>Inl (status, output)\<close> is a jump to \<open>EXIT\<close>, with the value
  \<open>RETURN_FLAG\<close> then has; \<open>Inr (TARGET, SAVE_TO_FILE)\<close> is the loop running to its end.
\<close>

fun parse_args :: "string \<Rightarrow> string list \<Rightarrow> nat \<Rightarrow> bool \<Rightarrow> (int \<times> event list) + (nat \<times> bool)" where
  "parse_args prog [] TARGET SAVE_TO_FILE = Inr (TARGET, SAVE_TO_FILE)"
| "parse_args prog (arg # rest) TARGET SAVE_TO_FILE =
     (if arg = ''-s'' then parse_args prog rest TARGET True
      else if arg = ''-h'' then Inl (0, print_usage prog)
      else
        let (PARSED, ENDPTR) = strtoul arg
        in if ENDPTR = [] \<and> PARSED > 0 then parse_args prog rest PARSED SAVE_TO_FILE
           else Inl (1, Print (''Error: Invalid argument '' @ apostrophe @ arg @ apostrophe
                                 @ nl @ nl) # print_usage prog))"

text \<open>Lines 249 to 286, reached when the loop ran to its end; \<open>main\<close> then returns 0.\<close>

definition compute_and_report ::
  "(int \<Rightarrow> nat) \<Rightarrow> (string \<Rightarrow> bool) \<Rightarrow> nat \<Rightarrow> bool \<Rightarrow> event list" where
  "compute_and_report sz can_open TARGET SAVE_TO_FILE =
     (let FIB_N = fst (fast_fib_calc TARGET (mpz_init, mpz_init))
      in Print (''Computing F('' @ decimal TARGET @ '')...'' @ nl @ nl) #
         (if SAVE_TO_FILE then [Print (''Result will be saved to file.'' @ nl)] else []) @
         [Compute TARGET, Print_timing] @
         print_fib_info sz can_open FIB_N TARGET SAVE_TO_FILE @
         [Print (nl @ ''Performance summary:'' @ nl), Print_timing])"

text \<open>
  \<open>main\<close>: the exit status and the effects, for the argument vector \<open>argv\<close>. The loop
  starts at \<open>argv[1]\<close>; \<open>argv[0]\<close> is only read to print the usage text, which needs an
  argument after it.
\<close>

definition main :: "(int \<Rightarrow> nat) \<Rightarrow> (string \<Rightarrow> bool) \<Rightarrow> string list \<Rightarrow> int \<times> event list" where
  "main sz can_open argv =
     (case parse_args (case argv of [] \<Rightarrow> [] | prog # _ \<Rightarrow> prog) (drop 1 argv) 20000000 False of
        Inl stop \<Rightarrow> stop
      | Inr (TARGET, SAVE_TO_FILE) \<Rightarrow> (0, compute_and_report sz can_open TARGET SAVE_TO_FILE))"


subsection \<open>Reading a run\<close>

text \<open>The files a run created, with their content, and the indices it computed.\<close>

fun files_written :: "event list \<Rightarrow> (string \<times> string) list" where
  "files_written [] = []"
| "files_written (Write_file name content # es) = (name, content) # files_written es"
| "files_written (e # es) = files_written es"

fun computed :: "event list \<Rightarrow> nat list" where
  "computed [] = []"
| "computed (Compute N # es) = N # computed es"
| "computed (e # es) = computed es"

text \<open>The \<open>k\<close> low-order decimal digits of \<open>m\<close>, zeros included.\<close>

fun low_digits :: "nat \<Rightarrow> nat \<Rightarrow> string" where
  "low_digits 0 m = []"
| "low_digits (Suc k) m = low_digits k (m div 10) @ [digit_char (m mod 10)]"

subsection \<open>A number of more than 100 digits\<close>

text \<open>The 500th Fibonacci number, written out; it has 105 digits.\<close>

abbreviation F500 :: int where
  "F500 \<equiv>
     139423224561697880139724382870407283950070256587697307264108962948325571622863290691557658876222521294125"

text \<open>The 480th Fibonacci number, written out; it has 100 digits.\<close>

abbreviation F480 :: int where
  "F480 \<equiv>
     9216845717656874712980450562726202415567360565980794777111390850331644813674856981646960226192287360"

section \<open>The engine computes the Fibonacci pair\<close>

lemmas frame_defs = section1_def section2_def sec1_shift_def sec1_sub_def sec1_mul_def
  sec2_sq1_def sec2_sq0_def sec2_add_def mpz_swap_A_B_def mpz_add_B_B_A_def
  enter_def outputs_def

lemmas mpz_defs = mpz_init_def mpz_set_ui_def mpz_mul_2exp_def mpz_sub_def mpz_add_def
  mpz_mul_def

subsection \<open>The doubling identities of the recurrence\<close>

lemma fib_rec_doubling:
  "fib_rec (2 * k) = fib_rec k * (2 * fib_rec (Suc k) - fib_rec k) \<and>
   fib_rec (Suc (2 * k)) = fib_rec (Suc k) * fib_rec (Suc k) + fib_rec k * fib_rec k"
proof (induction k)
  case 0
  show ?case by simp
next
  case (Suc k)
  have e: "fib_rec (2 * Suc k) = fib_rec (Suc (2 * k)) + fib_rec (2 * k)"
    by simp
  have o: "fib_rec (Suc (2 * Suc k)) = fib_rec (2 * Suc k) + fib_rec (Suc (2 * k))"
    by simp
  show ?case
    unfolding o e using Suc.IH by (simp add: algebra_simps)
qed

subsection \<open>What one activation writes\<close>

lemma section1_A: "A (section1 s) = F0 s * (push_bit 1 (F1 s) - F0 s)"
  by (simp add: frame_defs mpz_defs)

lemma section2_B: "B (section2 s) = F1 s * F1 s + F0 s * F0 s"
  by (simp add: frame_defs mpz_defs)

lemma candidates:
  "outputs (section2 (section1 (enter ab (f0, f1)))) =
     (f0 * (2 * f1 - f0), f1 * f1 + f0 * f0)"
  by (simp add: frame_defs mpz_defs)

lemma parity_fix_outputs:
  "outputs (parity_fix N s) = (if N mod 2 \<noteq> 0 then (B s, A s + B s) else (A s, B s))"
  by (simp add: parity_fix_def frame_defs mpz_defs)

lemma step_even:
  "N mod 2 = 0 \<Longrightarrow>
   outputs (parity_fix N (section2 (section1 (enter ab (f0, f1))))) =
     (f0 * (2 * f1 - f0), f1 * f1 + f0 * f0)"
  by (simp add: parity_fix_def frame_defs mpz_defs)

lemma step_odd:
  "N mod 2 \<noteq> 0 \<Longrightarrow>
   outputs (parity_fix N (section2 (section1 (enter ab (f0, f1))))) =
     (f1 * f1 + f0 * f0, f0 * (2 * f1 - f0) + (f1 * f1 + f0 * f0))"
  by (simp add: parity_fix_def frame_defs mpz_defs)

text \<open>The doubling step turns the pair for \<open>N div 2\<close> into the pair for \<open>N\<close>.\<close>

lemma step_fib:
  assumes "N \<noteq> 0"
  shows "outputs (parity_fix N (section2 (section1
           (enter ab (fib_rec (N div 2), fib_rec (Suc (N div 2))))))) =
         (fib_rec N, fib_rec (Suc N))"
proof -
  define k where "k = N div 2"
  show ?thesis
  proof (cases "N mod 2 = 0")
    case True
    then have N: "N = 2 * k"
      unfolding k_def by presburger
    have "fib_rec N = fib_rec k * (2 * fib_rec (Suc k) - fib_rec k)"
      and "fib_rec (Suc N) = fib_rec (Suc k) * fib_rec (Suc k) + fib_rec k * fib_rec k"
      unfolding N using fib_rec_doubling [of k] by simp_all
    then show ?thesis
      using True by (simp add: step_even k_def)
  next
    case False
    then have N: "N = Suc (2 * k)"
      unfolding k_def by presburger
    have "fib_rec N = fib_rec (Suc k) * fib_rec (Suc k) + fib_rec k * fib_rec k"
      and "fib_rec (Suc N) = fib_rec k * (2 * fib_rec (Suc k) - fib_rec k) +
             (fib_rec (Suc k) * fib_rec (Suc k) + fib_rec k * fib_rec k)"
      unfolding N using fib_rec_doubling [of k] by simp_all
    then show ?thesis
      using False by (simp add: step_odd k_def)
  qed
qed

lemma fast_fib_calc_unfold:
  "N \<noteq> 0 \<Longrightarrow>
   fast_fib_calc N ab = outputs (parity_fix N (section2 (section1
       (enter ab (fast_fib_calc (N div 2) (mpz_init, mpz_init))))))"
  by (simp add: fast_fib_calc.simps [of N])

lemma fast_fib_calc_fib: "fast_fib_calc N ab = (fib_rec N, fib_rec (Suc N))"
proof (induction N ab rule: fast_fib_calc.induct)
  case (1 N ab)
  show ?case
  proof (cases "N = 0")
    case True
    then show ?thesis
      by (simp add: fast_fib_calc.simps mpz_set_ui_def)
  next
    case False
    then have "fast_fib_calc (N div 2) (mpz_init, mpz_init) =
        (fib_rec (N div 2), fib_rec (Suc (N div 2)))"
      using "1.IH" by simp
    then show ?thesis
      using False by (simp add: fast_fib_calc_unfold step_fib)
  qed
qed

text \<open>
  C1. For every index \<open>N\<close>, and whatever the output cells held before, \<open>fast_fib_calc\<close>
  leaves \<open>(F(N), F(N+1))\<close> in them, \<open>F\<close> being the linear recurrence; the base case
  returns \<open>(0, 1)\<close>; and the same holds at every level of the recursion, whose index
  is \<open>N\<close> halved \<open>i\<close> times.
\<close>

theorem fast_fib_calc_correct:
  "fast_fib_calc 0 ab = (0, 1) \<and>
   fast_fib_calc N ab = (fib_rec N, fib_rec (N + 1)) \<and>
   fast_fib_calc (N div 2 ^ i) (mpz_init, mpz_init) =
     (fib_rec (N div 2 ^ i), fib_rec (N div 2 ^ i + 1))"
  by (simp add: fast_fib_calc_fib)

text \<open>
  C3. In an activation with \<open>N > 0\<close> whose recursive call returned
  \<open>(F0, F1) = (F(k), F(k+1))\<close> for \<open>k = N / 2\<close>: the first section leaves
  \<open>F0 * ((F1 << 1) - F0) = F(2k)\<close> in \<open>A\<close>, the second leaves
  \<open>F1 * F1 + F0 * F0 = F(2k+1)\<close> in \<open>B\<close>; for even \<open>N\<close> this pair is returned as it is,
  for odd \<open>N\<close> the cells are swapped and then added, which returns
  \<open>(B, A + B)\<close> of the candidates; either way the result is \<open>(F(N), F(N+1))\<close>, and it is
  what \<open>fast_fib_calc\<close> returns.
\<close>

theorem doubling_step:
  assumes "N > 0"
    and "f = (fib_rec (N div 2), fib_rec (N div 2 + 1))"
  shows "A (section1 (enter ab f)) = fst f * (push_bit 1 (snd f) - fst f) \<and>
         A (section1 (enter ab f)) = fib_rec (2 * (N div 2)) \<and>
         B (section2 (enter ab f)) = snd f * snd f + fst f * fst f \<and>
         B (section2 (enter ab f)) = fib_rec (2 * (N div 2) + 1) \<and>
         outputs (section2 (section1 (enter ab f))) =
           (A (section1 (enter ab f)), B (section2 (enter ab f))) \<and>
         parity_fix N (section2 (section1 (enter ab f))) =
           (if N mod 2 \<noteq> 0
            then mpz_add_B_B_A (mpz_swap_A_B (section2 (section1 (enter ab f))))
            else section2 (section1 (enter ab f))) \<and>
         outputs (parity_fix N (section2 (section1 (enter ab f)))) =
           (if N mod 2 \<noteq> 0
            then (B (section2 (enter ab f)),
                  A (section1 (enter ab f)) + B (section2 (enter ab f)))
            else (A (section1 (enter ab f)), B (section2 (enter ab f)))) \<and>
         outputs (parity_fix N (section2 (section1 (enter ab f)))) =
           (fib_rec N, fib_rec (N + 1)) \<and>
         fast_fib_calc N ab = outputs (parity_fix N (section2 (section1 (enter ab f))))"
proof -
  define s where "s = enter ab f"
  have F: "F0 s = fst f" "F1 s = snd f"
    by (simp_all add: s_def enter_def)
  have k: "fst f = fib_rec (N div 2)" "snd f = fib_rec (Suc (N div 2))"
    using assms(2) by simp_all
  have a: "A (section1 s) = fst f * (push_bit 1 (snd f) - fst f)"
    by (simp add: section1_A F)
  have b: "B (section2 s) = snd f * snd f + fst f * fst f"
    by (simp add: section2_B F)
  have a': "A (section1 s) = fib_rec (2 * (N div 2))"
    unfolding a k using fib_rec_doubling [of "N div 2"] by simp
  have b': "B (section2 s) = fib_rec (2 * (N div 2) + 1)"
    unfolding b k using fib_rec_doubling [of "N div 2"] by simp
  have both: "outputs (section2 (section1 s)) = (A (section1 s), B (section2 s))"
    by (simp add: frame_defs)
  have AB: "A (section2 (section1 s)) = A (section1 s)"
    "B (section2 (section1 s)) = B (section2 s)"
    using both by (simp_all add: outputs_def)
  have pf: "parity_fix N (section2 (section1 s)) =
      (if N mod 2 \<noteq> 0 then mpz_add_B_B_A (mpz_swap_A_B (section2 (section1 s)))
       else section2 (section1 s))"
    by (simp add: parity_fix_def)
  have out: "outputs (parity_fix N (section2 (section1 s))) =
      (if N mod 2 \<noteq> 0 then (B (section2 s), A (section1 s) + B (section2 s))
       else (A (section1 s), B (section2 s)))"
    by (simp add: parity_fix_outputs AB)
  have fib: "outputs (parity_fix N (section2 (section1 s))) = (fib_rec N, fib_rec (N + 1))"
    using step_fib [of N ab] assms by (simp add: s_def)
  have code: "fast_fib_calc N ab = outputs (parity_fix N (section2 (section1 s)))"
    unfolding fib by (simp add: fast_fib_calc_fib)
  show ?thesis
    using a a' b b' both pf out fib code unfolding s_def by blast
qed

theorem doubling_step_witness:
  "(0::nat) < 5 \<and> ((1, 2) :: int \<times> int) = (fib_rec (5 div 2), fib_rec (5 div 2 + 1)) \<and>
   A (section1 (enter (7, 8) (1, 2))) = 1 * (push_bit 1 2 - 1) \<and>
   A (section1 (enter (7, 8) (1, 2))) = 3 \<and>
   B (section2 (enter (7, 8) (1, 2))) = 2 * 2 + 1 * 1 \<and>
   outputs (parity_fix 5 (section2 (section1 (enter (7, 8) (1, 2))))) = (5, 3 + 5) \<and>
   fast_fib_calc 5 (7, 8) = (5, 8)"
proof -
  have h1: "(0::nat) < 5"
    by simp
  have h2: "((1, 2) :: int \<times> int) = (fib_rec (5 div 2), fib_rec (5 div 2 + 1))"
    by code_simp
  have d: "(5::nat) div 2 = 2"
    by simp
  show ?thesis
    using doubling_step [OF h1 h2, of "(7, 8)"] h2 unfolding d
    by (simp add: parity_fix_def frame_defs mpz_defs)
qed

text \<open>
  C4. The concrete values of the specification, for any previous content of the cells:
  \<open>fast_fib_calc(0) = (0, 1)\<close>, \<open>fast_fib_calc(1) = (1, 1)\<close>, \<open>fast_fib_calc(2) = (1, 2)\<close>,
  \<open>fast_fib_calc(10) = (55, 89)\<close>, \<open>fast_fib_calc(20) = (6765, 10946)\<close>, and the first
  component of \<open>fast_fib_calc(100)\<close> is 354224848179261915075.
\<close>

theorem concrete_values:
  "fast_fib_calc 0 ab = (0, 1) \<and>
   fast_fib_calc 1 ab = (1, 1) \<and>
   fast_fib_calc 2 ab = (1, 2) \<and>
   fast_fib_calc 10 ab = (55, 89) \<and>
   fast_fib_calc 20 ab = (6765, 10946) \<and>
   fst (fast_fib_calc 100 ab) = 354224848179261915075"
proof -
  note ev = fast_fib_calc.simps parity_fix_def frame_defs mpz_defs
  have "fast_fib_calc 0 ab = (0, 1)"
    by (simp add: ev)
  moreover have "fast_fib_calc 1 ab = (1, 1)"
    by (simp add: ev)
  moreover have "fast_fib_calc 2 ab = (1, 2)"
    by (simp add: ev)
  moreover have "fast_fib_calc 10 ab = (55, 89)"
    by (simp add: ev)
  moreover have "fast_fib_calc 20 ab = (6765, 10946)"
    by (simp add: ev)
  moreover have "fst (fast_fib_calc 100 ab) = 354224848179261915075"
    by (simp add: ev)
  ultimately show ?thesis
    by blast
qed

text \<open>
  C5. Adjacent indices agree with the recurrence: for \<open>N \<ge> 1\<close> the second component of
  \<open>fast_fib_calc(N)\<close> is the first component of \<open>fast_fib_calc(N+1)\<close>, and the second
  component of \<open>fast_fib_calc(N+1)\<close> is the sum of the two components of
  \<open>fast_fib_calc(N)\<close>.
\<close>

theorem recurrence_consistency:
  assumes "N \<ge> 1"
  shows "snd (fast_fib_calc N ab) = fst (fast_fib_calc (N + 1) ab') \<and>
         snd (fast_fib_calc (N + 1) ab') =
           fst (fast_fib_calc N ab) + snd (fast_fib_calc N ab)"
  by (simp add: fast_fib_calc_fib)

theorem recurrence_consistency_witness:
  "(1::nat) \<le> 7 \<and>
   snd (fast_fib_calc 7 (0, 0)) = fst (fast_fib_calc (7 + 1) (0, 0)) \<and>
   snd (fast_fib_calc (7 + 1) (0, 0)) =
     fst (fast_fib_calc 7 (0, 0)) + snd (fast_fib_calc 7 (0, 0)) \<and>
   fast_fib_calc 7 (0, 0) = (13, 21) \<and> fast_fib_calc (7 + 1) (0, 0) = (21, 34)"
proof -
  have h: "(1::nat) \<le> 7"
    by simp
  have v: "fast_fib_calc 7 (0, 0) = (13, 21)" "fast_fib_calc (7 + 1) (0, 0) = (21, 34)"
    by (simp_all add: fast_fib_calc.simps parity_fix_def frame_defs mpz_defs)
  show ?thesis
    using recurrence_consistency [OF h, of "(0, 0)" "(0, 0)"] v by simp
qed

subsection \<open>The sections commute\<close>

lemma run_Nil: "run [] s = s"
  by (simp add: run_def)

lemma run_Cons: "run (f # fs) s = run fs (f s)"
  by (simp add: run_def)

lemma run_append: "run (fs @ gs) s = run gs (run fs s)"
  by (simp add: run_def)

text \<open>A statement that commutes with every statement of a list commutes with the list.\<close>

lemma run_swap:
  assumes "\<forall>f \<in> set fs. \<forall>t. f (g t) = g (f t)"
  shows "run fs (g s) = g (run fs s)"
  using assms by (induction fs arbitrary: s) (simp_all add: run_Nil run_Cons)

text \<open>
  If every statement of one thread commutes with every statement of the other, each
  interleaving has the effect of running the first thread and then the second.
\<close>

lemma run_interleave:
  assumes "\<forall>f \<in> set fs. \<forall>g \<in> set gs. \<forall>t. f (g t) = g (f t)"
  shows "run (interleave cs fs gs) s = run gs (run fs s)"
  using assms
proof (induction cs fs gs arbitrary: s rule: interleave.induct)
  case (1 cs ys)
  show ?case
    by (simp add: run_Nil)
next
  case (2 cs v va)
  show ?case
    by (simp add: run_Nil)
next
  case (3 v va vb vc)
  show ?case
    using run_append [of "v # va" "vb # vc" s] by simp
next
  case (4 c cs x xs y ys)
  show ?case
  proof (cases c)
    case True
    have rest: "\<forall>f \<in> set xs. \<forall>g \<in> set (y # ys). \<forall>t. f (g t) = g (f t)"
      using "4.prems" by auto
    have "run (interleave cs xs (y # ys)) (x s) = run (y # ys) (run xs (x s))"
      by (rule "4.IH"(1) [OF True rest])
    then show ?thesis
      using True by (simp add: run_Cons)
  next
    case False
    have rest: "\<forall>f \<in> set (x # xs). \<forall>g \<in> set ys. \<forall>t. f (g t) = g (f t)"
      using "4.prems" by auto
    have later: "run (interleave cs (x # xs) ys) (y s) = run ys (run (x # xs) (y s))"
      by (rule "4.IH"(2) [OF False rest])
    have "\<forall>f \<in> set (x # xs). \<forall>t. f (y t) = y (f t)"
      using "4.prems" by auto
    then have moved: "run (x # xs) (y s) = y (run (x # xs) s)"
      by (rule run_swap)
    show ?thesis
      using False later moved by (simp add: run_Cons)
  qed
qed

text \<open>
  The first section writes \<open>TEMP\<close> and \<open>A\<close>, the second \<open>B\<close> and \<open>F0_Q\<close>; both only read
  \<open>F0\<close> and \<open>F1\<close> besides.
\<close>

lemma sections_commute:
  "\<forall>f \<in> set section1_stmts. \<forall>g \<in> set section2_stmts. \<forall>t. f (g t) = g (f t)"
  by (simp add: section1_stmts_def section2_stmts_def sec1_shift_def sec1_sub_def
      sec1_mul_def sec2_sq1_def sec2_sq0_def sec2_add_def)

lemma run_section1: "run section1_stmts s = section1 s"
  by (simp add: section1_stmts_def section1_def run_Cons run_Nil)

lemma run_section2: "run section2_stmts s = section2 s"
  by (simp add: section2_stmts_def section2_def run_Cons run_Nil)

lemma section_order: "section1 (section2 s) = section2 (section1 s)"
  by (simp add: frame_defs)

lemma omp_sections_eq: "omp_sections cfg N s = section2 (section1 s)"
  by (simp add: omp_sections_def run_interleave [OF sections_commute] run_section1
      run_section2 section_order)

lemma fast_fib_calc_omp_eq: "fast_fib_calc_omp cfg N ab = fast_fib_calc N ab"
proof (induction cfg N ab rule: fast_fib_calc_omp.induct)
  case (1 cfg N ab)
  show ?case
  proof (cases "N = 0")
    case True
    then show ?thesis
      by (simp add: fast_fib_calc_omp.simps fast_fib_calc.simps)
  next
    case False
    with "1.IH" show ?thesis
      by (simp add: fast_fib_calc_omp.simps [of cfg N] fast_fib_calc.simps [of N]
          omp_sections_eq)
  qed
qed

text \<open>
  C2. The result does not depend on the concurrency configuration: whatever the split
  threshold, the order of the two sections when one thread runs them and the
  interleaving of their statements when two do, the pair is the one the sequential
  program returns; so two configurations agree, a threshold of 0 (every level split)
  agrees with a threshold above \<open>N\<close> (no level split), and both orders of the sections
  give the same frame.
\<close>

theorem configuration_independent:
  "fast_fib_calc_omp cfg N ab = fast_fib_calc N ab \<and>
   fast_fib_calc_omp cfg N ab = fast_fib_calc_omp cfg' N ab \<and>
   fast_fib_calc_omp (cfg\<lparr>threshold := 0\<rparr>) N ab =
     fast_fib_calc_omp (cfg\<lparr>threshold := Suc N\<rparr>) N ab \<and>
   section1 (section2 s) = section2 (section1 s) \<and>
   run (interleave cs section1_stmts section2_stmts) s = section2 (section1 s)"
  by (simp add: fast_fib_calc_omp_eq section_order run_interleave [OF sections_commute]
      run_section1 run_section2)

text \<open>
  C10. Both output cells are overwritten: what \<open>A\<close> and \<open>B\<close> hold when the call is made
  has no influence on what they hold when it returns, with or without OpenMP.
\<close>

theorem outputs_overwritten:
  "fast_fib_calc N ab = fast_fib_calc N ab' \<and>
   fast_fib_calc_omp cfg N ab = fast_fib_calc_omp cfg N ab'"
  by (simp add: fast_fib_calc_omp_eq fast_fib_calc_fib)

subsection \<open>Termination and the depth of the call chain\<close>

lemma floorlog_half: "N \<noteq> 0 \<Longrightarrow> floorlog 2 N = Suc (floorlog 2 (N div 2))"
  using compute_floorlog [of 2 N] by simp

lemma floorlog_ceillog2: "floorlog 2 N = ceillog2 (N + 1)"
proof (cases "N = 0")
  case True
  then show ?thesis
    by (simp add: floorlog_def)
next
  case False
  then have b: "2 ^ (floorlog 2 N - 1) \<le> N" "N < 2 ^ floorlog 2 N"
    using floorlog_bounds [of N 2] by simp_all
  have pos: "floorlog 2 N \<noteq> 0"
    using False by (simp add: floorlog_eq_zero_iff)
  then have "(2::nat) ^ floorlog 2 N = 2 * 2 ^ (floorlog 2 N - 1)"
    by (cases "floorlog 2 N") simp_all
  then have "(2::nat) ^ floorlog 2 N < 2 * (N + 1)"
    using b(1) by simp
  moreover have "N + 1 \<le> 2 ^ floorlog 2 N"
    using b(2) by simp
  ultimately show ?thesis
    using ceillog2_eqI [of "N + 1" "floorlog 2 N"] by simp
qed

text \<open>With \<open>d\<close> activations the call returns iff \<open>d\<close> exceeds the bit length of \<open>N\<close>.\<close>

lemma fast_fib_calc_fuel_eq:
  "fast_fib_calc_fuel d N ab =
     (if floorlog 2 N + 1 \<le> d then Some (fast_fib_calc N ab) else None)"
proof (induction d arbitrary: N ab)
  case 0
  show ?case
    by simp
next
  case (Suc d)
  show ?case
  proof (cases "N = 0")
    case True
    then show ?thesis
      by (simp add: fast_fib_calc.simps floorlog_def)
  next
    case False
    then show ?thesis
      by (simp add: Suc.IH floorlog_half fast_fib_calc_unfold)
  qed
qed

text \<open>
  C6, as the code has it. \<open>fast_fib_calc\<close> returns for every \<open>N\<close>: each recursive call is
  on \<open>N / 2\<close>, which is smaller than \<open>N\<close> when \<open>N > 0\<close>, and the call returns as soon as
  the chain may hold \<open>\<lceil>log2 (N + 1)\<rceil> + 1\<close> activations and not with fewer. That
  depth is 1 for \<open>N = 0\<close> and \<open>\<lfloor>log2 N\<rfloor> + 2\<close> otherwise; it is \<open>\<lceil>log2 N\<rceil> + 1\<close> only when
  \<open>N\<close> is not a power of two.
\<close>

theorem call_chain_depth:
  "(0 < N \<longrightarrow> N div 2 < N) \<and>
   fast_fib_calc_fuel d N ab =
     (if ceillog2 (N + 1) + 1 \<le> d then Some (fast_fib_calc N ab) else None) \<and>
   ceillog2 (N + 1) + 1 = (if N = 0 then 1 else nat \<lfloor>log 2 (real N)\<rfloor> + 2)"
proof -
  have "floorlog 2 N = (if N = 0 then 0 else nat \<lfloor>log 2 (real N)\<rfloor> + 1)"
    unfolding floorlog_def by simp
  then have "ceillog2 (N + 1) + 1 = (if N = 0 then 1 else nat \<lfloor>log 2 (real N)\<rfloor> + 2)"
    unfolding floorlog_ceillog2 by simp
  then show ?thesis
    using fast_fib_calc_fuel_eq [of d N ab] by (simp add: floorlog_ceillog2)
qed

theorem call_chain_depth_witness:
  "(0::nat) < 4 \<and> (4::nat) div 2 < 4 \<and>
   fast_fib_calc_fuel 4 4 (0, 0) = Some (fast_fib_calc 4 (0, 0)) \<and>
   fast_fib_calc_fuel 3 4 (0, 0) = None \<and>
   ceillog2 (4 + 1) + 1 = 4"
proof -
  have c: "ceillog2 5 = 3"
    by code_simp
  have h: "(0::nat) < 4"
    by simp
  have "(4::nat) div 2 < 4"
    using call_chain_depth [of 4 4 "(0, 0)", THEN conjunct1] h by (rule mp)
  then show ?thesis
    using h call_chain_depth [of 4 4 "(0, 0)", THEN conjunct2, THEN conjunct1]
      call_chain_depth [of 4 3 "(0, 0)", THEN conjunct2, THEN conjunct1]
    by (simp add: c)
qed

text \<open>
  C6, as the specification has it, fails at \<open>N = 4\<close>: \<open>\<lceil>log2 4\<rceil> + 1\<close> is 3, and the chain
  4, 2, 1, 0 has four activations: three are not enough, four are. The chain 3, 1, 0 of
  \<open>N = 3\<close> fits in three, for the same value of the formula.
\<close>

theorem call_chain_depth_counterexample:
  "ceillog2 4 + 1 = 3 \<and>
   fast_fib_calc_fuel 3 4 (0, 0) = None \<and>
   fast_fib_calc_fuel 4 4 (0, 0) = Some (3, 5) \<and>
   ceillog2 3 + 1 = 3 \<and>
   fast_fib_calc_fuel 3 3 (0, 0) = Some (2, 3)"
proof -
  have c: "ceillog2 4 = 2" "ceillog2 3 = 2"
    by code_simp+
  have three: "(3::nat) = Suc (Suc (Suc 0))" and four: "(4::nat) = Suc (Suc (Suc (Suc 0)))"
    by simp_all
  have "fast_fib_calc_fuel 3 4 (0, 0) = None"
    unfolding three by (simp add: mpz_defs)
  moreover have "fast_fib_calc_fuel 4 4 (0, 0) = Some (3, 5)"
    unfolding four by (simp add: parity_fix_def frame_defs mpz_defs)
  moreover have "fast_fib_calc_fuel 3 3 (0, 0) = Some (2, 3)"
    unfolding three by (simp add: parity_fix_def frame_defs mpz_defs)
  ultimately show ?thesis
    using c by simp
qed

section \<open>The command-line program\<close>

subsection \<open>Decimal digits\<close>

lemma length_low_digits: "length (low_digits k m) = k"
  by (induction k arbitrary: m) simp_all

lemma decimal_small: "n < 10 \<Longrightarrow> decimal n = [digit_char n]"
  by (simp add: decimal.simps)

lemma decimal_large:
  "10 \<le> n \<Longrightarrow> decimal n = decimal (n div 10) @ [digit_char (n mod 10)]"
  by (simp add: decimal.simps [of n])

lemma ten_le_if_power_le: "10 ^ Suc k \<le> n \<Longrightarrow> (10::nat) \<le> n"
proof -
  assume "10 ^ Suc k \<le> n"
  then have "10 * 10 ^ k \<le> n"
    by simp
  moreover have "(1::nat) \<le> 10 ^ k"
    by simp
  ultimately show ?thesis
    by linarith
qed

text \<open>A number of at least \<open>k + 1\<close> digits is its leading part followed by \<open>k\<close> digits.\<close>

lemma decimal_split:
  "10 ^ k \<le> n \<Longrightarrow> decimal n = decimal (n div 10 ^ k) @ low_digits k (n mod 10 ^ k)"
proof (induction k arbitrary: n)
  case 0
  show ?case
    by simp
next
  case (Suc k)
  have big: "10 \<le> n"
    using Suc.prems by (rule ten_le_if_power_le)
  have "10 ^ k \<le> n div 10"
    using Suc.prems by (simp add: less_eq_div_iff_mult_less_eq mult.commute)
  then have "decimal (n div 10) =
      decimal (n div 10 div 10 ^ k) @ low_digits k (n div 10 mod 10 ^ k)"
    by (rule Suc.IH)
  moreover have "n div 10 div 10 ^ k = n div 10 ^ Suc k"
    by (simp add: div_mult2_eq)
  moreover have "n mod 10 ^ Suc k div 10 = n div 10 mod 10 ^ k"
    by (simp add: mod_mult2_eq)
  moreover have "n mod 10 ^ Suc k mod 10 = n mod 10"
    by (simp add: mod_mod_cancel)
  ultimately show ?case
    using big by (simp add: decimal_large del: power_Suc)
qed

lemma length_decimal_le: "n < 10 ^ k \<Longrightarrow> 0 < k \<Longrightarrow> length (decimal n) \<le> k"
proof (induction k arbitrary: n)
  case 0
  then show ?case
    by simp
next
  case (Suc k)
  show ?case
  proof (cases "n < 10")
    case True
    then show ?thesis
      by (simp add: decimal_small)
  next
    case False
    then have "k \<noteq> 0"
      using Suc.prems by (cases k) simp_all
    moreover have "n div 10 < 10 ^ k"
      using Suc.prems by (simp add: less_mult_imp_div_less mult.commute)
    ultimately have "length (decimal (n div 10)) \<le> k"
      using Suc.IH by simp
    then show ?thesis
      using False by (simp add: decimal_large)
  qed
qed

lemma decimal_ge: "k < length (decimal n) \<Longrightarrow> 0 < k \<Longrightarrow> 10 ^ k \<le> n"
proof (rule ccontr)
  assume k: "k < length (decimal n)" "0 < k" and "\<not> 10 ^ k \<le> n"
  then have "n < 10 ^ k"
    by simp
  then show False
    using length_decimal_le [of n k] k by simp
qed

text \<open>Dividing by \<open>10 ^ k\<close> cuts the last \<open>k\<close> digits off; the remainder is those digits.\<close>

lemma take_decimal:
  assumes "k < length (decimal n)"
  shows "decimal (n div 10 ^ k) = take (length (decimal n) - k) (decimal n) \<and>
         low_digits k (n mod 10 ^ k) = drop (length (decimal n) - k) (decimal n)"
proof (cases "k = 0")
  case True
  then show ?thesis
    by simp
next
  case False
  then have "10 ^ k \<le> n"
    using decimal_ge [OF assms] by simp
  then have s: "decimal (n div 10 ^ k) @ low_digits k (n mod 10 ^ k) = decimal n"
    using decimal_split [of k n] by simp
  have l: "length (decimal n) - k = length (decimal (n div 10 ^ k))"
    using arg_cong [OF s, of length] by (simp add: length_low_digits)
  show ?thesis
    unfolding l using s by (simp add: append_eq_conv_conj)
qed

text \<open>A number of exactly \<open>k + 1\<close> digits is its own \<open>k + 1\<close> low digits.\<close>

lemma low_digits_decimal:
  "10 ^ k \<le> m \<Longrightarrow> m < 10 ^ Suc k \<Longrightarrow> low_digits (Suc k) m = decimal m"
proof (induction k arbitrary: m)
  case 0
  then show ?case
    by (simp add: decimal_small)
next
  case (Suc k)
  have big: "10 \<le> m"
    using Suc.prems(1) by (rule ten_le_if_power_le)
  have "10 ^ k \<le> m div 10"
    using Suc.prems by (simp add: less_eq_div_iff_mult_less_eq mult.commute)
  moreover have "m div 10 < 10 ^ Suc k"
    using Suc.prems by (simp add: less_mult_imp_div_less mult.commute)
  ultimately have "low_digits (Suc k) (m div 10) = decimal (m div 10)"
    by (rule Suc.IH)
  then show ?case
    using big decimal_large [of m] by simp
qed

lemma length_decimal_power: "length (decimal (10 ^ k)) = Suc k"
proof (induction k)
  case 0
  show ?case
    by (simp add: decimal_small)
next
  case (Suc k)
  have "(10::nat) \<le> 10 ^ Suc k"
    by (rule ten_le_if_power_le [of k]) simp
  then show ?case
    using Suc.IH decimal_large [of "10 ^ Suc k"] by simp
qed

subsection \<open>Printing a number that was read\<close>

lemma digit_char_value: "isdigit c \<Longrightarrow> digit_char (digit_value c) = c"
  by (auto simp add: isdigit_def digit_char_def digit_value_def)

lemma digit_value_less: "isdigit c \<Longrightarrow> digit_value c < 10"
  by (auto simp add: isdigit_def digit_value_def)

lemma digit_value_pos: "isdigit c \<Longrightarrow> c \<noteq> CHR ''0'' \<Longrightarrow> 0 < digit_value c"
  by (auto simp add: isdigit_def digit_value_def)

lemma digits_value_snoc: "digits_value (s @ [c]) = 10 * digits_value s + digit_value c"
  by (simp add: digits_value_def)

lemma digits_value_pos:
  "s \<noteq> [] \<Longrightarrow> \<forall>c \<in> set s. isdigit c \<Longrightarrow> hd s \<noteq> CHR ''0'' \<Longrightarrow> 0 < digits_value s"
proof (induction s rule: rev_induct)
  case Nil
  then show ?case
    by simp
next
  case (snoc c s)
  show ?case
  proof (cases "s = []")
    case True
    then show ?thesis
      using snoc.prems digit_value_pos [of c] by (simp add: digits_value_def)
  next
    case False
    then have "0 < digits_value s"
      using snoc by simp
    then show ?thesis
      by (simp add: digits_value_snoc)
  qed
qed

text \<open>
  A string of decimal digits without a leading zero is the decimal text of its value.
\<close>

lemma decimal_digits_value:
  "s \<noteq> [] \<Longrightarrow> \<forall>c \<in> set s. isdigit c \<Longrightarrow> hd s \<noteq> CHR ''0'' \<Longrightarrow>
   decimal (digits_value s) = s"
proof (induction s rule: rev_induct)
  case Nil
  then show ?case
    by simp
next
  case (snoc c s)
  have c: "isdigit c"
    using snoc.prems by simp
  show ?case
  proof (cases "s = []")
    case True
    then show ?thesis
      using digit_value_less [OF c] digit_char_value [OF c]
      by (simp add: digits_value_def decimal_small)
  next
    case False
    then have q: "0 < digits_value s" and ih: "decimal (digits_value s) = s"
      using snoc digits_value_pos [of s] by simp_all
    have d: "digit_value c < 10"
      using c by (rule digit_value_less)
    have "10 \<le> 10 * digits_value s + digit_value c"
      using q by simp
    then have "decimal (10 * digits_value s + digit_value c) =
        decimal ((10 * digits_value s + digit_value c) div 10) @
        [digit_char ((10 * digits_value s + digit_value c) mod 10)]"
      by (rule decimal_large)
    then show ?thesis
      using d ih digit_char_value [OF c] by (simp add: digits_value_snoc)
  qed
qed

lemma exact_size_power: "exact_size (10 ^ k) = Suc k"
  by (simp add: exact_size_def nat_power_eq length_decimal_power)

subsection \<open>The digits \<open>print_fib_info\<close> shows for a non-negative number\<close>

lemma mpz_get_str_nonneg: "0 \<le> a \<Longrightarrow> mpz_get_str a = decimal (nat a)"
  by (simp add: mpz_get_str_def)

lemma first_digits_by_division:
  assumes "0 \<le> a" and "50 < length (mpz_get_str a)"
  shows "mpz_get_str (a div 10 ^ (length (mpz_get_str a) - 50)) = take 50 (mpz_get_str a)"
proof -
  define n where "n = nat a"
  define k where "k = length (decimal n) - 50"
  have a: "a = int n"
    using assms(1) by (simp add: n_def)
  have len: "50 < length (decimal n)"
    using assms by (simp add: mpz_get_str_nonneg n_def)
  then have "k < length (decimal n)" and "length (decimal n) - k = 50"
    by (simp_all add: k_def)
  then have "decimal (n div 10 ^ k) = take 50 (decimal n)"
    using take_decimal [of k n] by simp
  moreover have "int n div 10 ^ k = int (n div 10 ^ k)"
    by (simp add: zdiv_int)
  ultimately show ?thesis
    unfolding a by (simp add: mpz_get_str_def k_def)
qed

lemma last_digits_by_modulo:
  assumes "0 \<le> a" and "50 < length (mpz_get_str a)" and "10 ^ 49 \<le> a mod 10 ^ 50"
  shows "pad_left 50 (mpz_get_str (a mod 10 ^ 50)) =
         drop (length (mpz_get_str a) - 50) (mpz_get_str a)"
proof -
  define n where "n = nat a"
  define m where "m = n mod 10 ^ 50"
  have a: "a = int n"
    using assms(1) by (simp add: n_def)
  have len: "50 < length (decimal n)"
    using assms by (simp add: mpz_get_str_nonneg n_def)
  have am: "a mod 10 ^ 50 = int m"
    unfolding a m_def by (simp add: zmod_int)
  have lo: "10 ^ 49 \<le> m"
    using assms(3) unfolding am by simp
  have hi: "m < 10 ^ Suc 49"
    unfolding m_def by simp
  have "low_digits (Suc 49) m = decimal m"
    using lo hi by (rule low_digits_decimal)
  moreover have "low_digits 50 m = drop (length (decimal n) - 50) (decimal n)"
    using take_decimal [of 50 n] len by (simp add: m_def)
  ultimately have d: "decimal m = drop (length (decimal n) - 50) (decimal n)"
    by simp
  then have "length (decimal m) = 50"
    using len by simp
  then have "pad_left 50 (decimal m) = decimal m"
    by (simp add: pad_left_def)
  then show ?thesis
    unfolding am using d by (simp add: mpz_get_str_def a)
qed

subsection \<open>What a run computes and writes\<close>

lemma computed_append: "computed (xs @ ys) = computed xs @ computed ys"
  by (induction xs rule: computed.induct) simp_all

lemma files_written_append: "files_written (xs @ ys) = files_written xs @ files_written ys"
  by (induction xs rule: files_written.induct) simp_all

lemma computed_print_fib_info: "computed (print_fib_info sz can_open a N SAVE) = []"
  by (simp add: print_fib_info_def print_digit_count_def print_divmod_def save_to_file_def
      display_def computed_append Let_def)

lemma computed_print_usage: "computed (print_usage prog) = []"
  by (simp add: print_usage_def)

lemma files_written_print_usage: "files_written (print_usage prog) = []"
  by (simp add: print_usage_def)

lemma files_written_display: "files_written (display str d) = []"
  by (simp add: display_def)

subsection \<open>The argument loop\<close>

lemmas strtoul_defs = strtoul_def isspace_def isdigit_def digits_value_def digit_value_def
  ULONG_MAX_def Let_def

text \<open>
  An argument other than \<open>-s\<close> and \<open>-h\<close> that \<open>strtoul\<close> does not read to its end, or
  reads as 0, ends the run: the error line and the usage text are printed, the exit
  status is 1, nothing is computed and no file is written.
\<close>

lemma rejected_argument:
  assumes "arg \<noteq> ''-s''" and "arg \<noteq> ''-h''"
    and "snd (strtoul arg) \<noteq> [] \<or> fst (strtoul arg) = 0"
  shows "parse_args prog (arg # rest) TARGET SAVE_TO_FILE =
           Inl (1, Print (''Error: Invalid argument '' @ apostrophe @ arg @ apostrophe
                            @ nl @ nl) # print_usage prog)"
  using assms by (auto simp add: case_prod_unfold)

lemma rejected_argument_run:
  assumes "arg \<noteq> ''-s''" and "arg \<noteq> ''-h''"
    and "snd (strtoul arg) \<noteq> [] \<or> fst (strtoul arg) = 0"
  shows "fst (main sz can_open (prog # arg # rest)) = 1 \<and>
         computed (snd (main sz can_open (prog # arg # rest))) = [] \<and>
         files_written (snd (main sz can_open (prog # arg # rest))) = []"
proof -
  have "parse_args prog (arg # rest) 20000000 False =
      Inl (1, Print (''Error: Invalid argument '' @ apostrophe @ arg @ apostrophe
                       @ nl @ nl) # print_usage prog)"
    using assms by (rule rejected_argument)
  then show ?thesis
    by (simp add: main_def computed_print_usage files_written_print_usage
        del: parse_args.simps)
qed

lemma rejected_examples:
  "strtoul ''abc'' = (0, ''abc'') \<and> strtoul ''0'' = (0, []) \<and>
   fst (main sz can_open [prog, ''abc'']) = 1 \<and>
   fst (main sz can_open [prog, ''0'']) = 1"
proof -
  have abc: "strtoul ''abc'' = (0, ''abc'')"
    by (simp add: strtoul_defs)
  have zero: "strtoul ''0'' = (0, [])"
    by (simp add: strtoul_defs)
  have "fst (main sz can_open [prog, ''abc'']) = 1"
    by (rule rejected_argument_run [THEN conjunct1]) (simp_all add: abc)
  moreover have "fst (main sz can_open [prog, ''0'']) = 1"
    by (rule rejected_argument_run [THEN conjunct1]) (simp_all add: zero)
  ultimately show ?thesis
    using abc zero by simp
qed

text \<open>
  C7, at the argument \<open>-3\<close>. \<open>strtoul\<close> accepts the sign, reads the 3 to the end of the
  text and negates it in \<open>unsigned long\<close>: the value \<open>2^64 - 3\<close> passes the test
  \<open>PARSED > 0\<close>. The loop ends without a jump, and \<open>main\<close> goes on to compute
  \<open>F(18446744073709551613)\<close>: no usage text, exit status 0 on return.
\<close>

theorem negative_argument_accepted:
  "strtoul ''-3'' = (18446744073709551613, []) \<and>
   parse_args prog [''-3''] 20000000 False = Inr (18446744073709551613, False) \<and>
   main sz can_open [prog, ''-3''] =
     (0, compute_and_report sz can_open 18446744073709551613 False) \<and>
   hd (snd (main sz can_open [prog, ''-3''])) =
     Print (''Computing F(18446744073709551613)...'' @ nl @ nl) \<and>
   computed (snd (main sz can_open [prog, ''-3''])) = [18446744073709551613]"
proof -
  have s: "strtoul ''-3'' = (18446744073709551613, [])"
    by (simp add: strtoul_defs)
  have p: "parse_args prog [''-3''] 20000000 False = Inr (18446744073709551613, False)"
    by (simp add: s)
  have m: "main sz can_open [prog, ''-3''] =
      (0, compute_and_report sz can_open 18446744073709551613 False)"
    by (simp add: main_def p del: parse_args.simps)
  have d: "decimal 18446744073709551613 = ''18446744073709551613''"
    by (simp add: decimal.simps digit_char_def)
  have h: "hd (compute_and_report sz can_open 18446744073709551613 False) =
      Print (''Computing F(18446744073709551613)...'' @ nl @ nl)"
    by (simp add: compute_and_report_def d Let_def)
  have c: "computed (compute_and_report sz can_open 18446744073709551613 False) =
      [18446744073709551613]"
    by (simp add: compute_and_report_def Let_def computed_append computed_print_fib_info)
  show ?thesis
    using s p h c by (simp add: m)
qed

subsection \<open>\<open>print_fib_info\<close>\<close>

lemma print_fib_info_divmod:
  "1000000 < sz a \<Longrightarrow> \<not> SAVE \<Longrightarrow>
   print_fib_info sz can_open a N SAVE = print_digit_count N (sz a) # print_divmod a (sz a)"
  by (simp add: print_fib_info_def Let_def)

lemma print_fib_info_string:
  "SAVE \<or> sz a \<le> 1000000 \<Longrightarrow>
   print_fib_info sz can_open a N SAVE =
     print_digit_count N (sz a) #
     (if SAVE then save_to_file can_open N (mpz_get_str a) else []) @
     display (mpz_get_str a) (sz a)"
  by (auto simp add: print_fib_info_def Let_def)

lemma hd_print_fib_info:
  "hd (print_fib_info sz can_open a N SAVE) = print_digit_count N (sz a)"
  by (simp add: print_fib_info_def Let_def)

lemma display_full:
  "d \<le> 100 \<Longrightarrow> display str d = [Print (''Full number: '' @ str @ nl)]"
  by (simp add: display_def)

lemma display_cut:
  "100 < d \<Longrightarrow> d \<le> length str + 1 \<Longrightarrow>
   display str d =
     [Print (''First 50 digits: '' @ take 50 str @ nl),
      Print (''Last 50 digits:  '' @ drop (d - 50) str @ nl)]"
  by (simp add: display_def)

lemma length_decimal_gt: "10 ^ k \<le> n \<Longrightarrow> k < length (decimal n)"
proof -
  assume "10 ^ k \<le> n"
  then have "decimal n = decimal (n div 10 ^ k) @ low_digits k (n mod 10 ^ k)"
    by (rule decimal_split)
  then have "length (decimal n) = length (decimal (n div 10 ^ k)) + k"
    by (simp add: length_low_digits)
  moreover have "0 < length (decimal (n div 10 ^ k))"
    by (simp add: decimal.simps [of "n div 10 ^ k"])
  ultimately show ?thesis
    by simp
qed

lemma exact_size_nonneg: "0 \<le> a \<Longrightarrow> exact_size a = length (mpz_get_str a)"
  by (simp add: exact_size_def mpz_get_str_def)

lemma length_pad_left_remainder:
  assumes "0 \<le> a"
  shows "length (pad_left 50 (mpz_get_str (a mod 10 ^ 50))) = 50"
proof -
  define m where "m = nat a mod 10 ^ 50"
  have am: "a mod 10 ^ 50 = int m"
    using assms by (simp add: m_def zmod_int)
  have "m < 10 ^ 50"
    by (simp add: m_def)
  then have "length (decimal m) \<le> 50"
    by (rule length_decimal_le) simp
  then show ?thesis
    unfolding am by (simp add: pad_left_def mpz_get_str_def)
qed

text \<open>
  C8, as the code has it, for a result whose number of digits \<open>mpz_sizeinbase\<close> reports
  exactly. The digit count is always printed, first. When the result has at most 100
  digits the full value is printed. When it has more than 100 digits exactly the first
  50 and the last 50 decimal digits are printed: cut out of the decimal string when the
  save flag is set or the result has at most 1000000 digits, and obtained by division by
  \<open>10 ^ (digits - 50)\<close> and modulo \<open>10 ^ 50\<close> only when the result has more than 1000000
  digits and the save flag is not set; there the quotient is the first 50 digits, and
  the remainder is printed in a field of 50 columns, which is the last 50 digits when
  the first of them is not 0.
\<close>

theorem print_fib_info_format:
  assumes "0 \<le> a" and "sz a = length (mpz_get_str a)"
  shows
    "hd (print_fib_info sz can_open a N SAVE) =
       print_digit_count N (length (mpz_get_str a)) \<and>
     (length (mpz_get_str a) \<le> 100 \<longrightarrow>
        print_fib_info sz can_open a N SAVE =
          print_digit_count N (length (mpz_get_str a)) #
          (if SAVE then save_to_file can_open N (mpz_get_str a) else []) @
          [Print (''Full number: '' @ mpz_get_str a @ nl)]) \<and>
     (100 < length (mpz_get_str a) \<and> (SAVE \<or> length (mpz_get_str a) \<le> 1000000) \<longrightarrow>
        print_fib_info sz can_open a N SAVE =
          print_digit_count N (length (mpz_get_str a)) #
          (if SAVE then save_to_file can_open N (mpz_get_str a) else []) @
          [Print (''First 50 digits: '' @ take 50 (mpz_get_str a) @ nl),
           Print (''Last 50 digits:  '' @
                  drop (length (mpz_get_str a) - 50) (mpz_get_str a) @ nl)] \<and>
        length (take 50 (mpz_get_str a)) = 50 \<and>
        length (drop (length (mpz_get_str a) - 50) (mpz_get_str a)) = 50) \<and>
     (1000000 < length (mpz_get_str a) \<and> \<not> SAVE \<longrightarrow>
        print_fib_info sz can_open a N SAVE =
          [print_digit_count N (length (mpz_get_str a)),
           Print (''First ~50 digits: '' @
                  mpz_get_str (a div 10 ^ (length (mpz_get_str a) - 50)) @ nl),
           Print (''Last 50 digits:   '' @
                  pad_left 50 (mpz_get_str (a mod 10 ^ 50)) @ nl)] \<and>
        mpz_get_str (a div 10 ^ (length (mpz_get_str a) - 50)) = take 50 (mpz_get_str a) \<and>
        length (take 50 (mpz_get_str a)) = 50 \<and>
        length (pad_left 50 (mpz_get_str (a mod 10 ^ 50))) = 50 \<and>
        (10 ^ 49 \<le> a mod 10 ^ 50 \<longrightarrow>
           pad_left 50 (mpz_get_str (a mod 10 ^ 50)) =
             drop (length (mpz_get_str a) - 50) (mpz_get_str a)))"
proof -
  define str where "str = mpz_get_str a"
  define d where "d = length str"
  have sz: "sz a = d"
    using assms(2) by (simp add: d_def str_def)
  have count: "hd (print_fib_info sz can_open a N SAVE) = print_digit_count N d"
    by (simp add: hd_print_fib_info sz)
  have full: "print_fib_info sz can_open a N SAVE =
      print_digit_count N d # (if SAVE then save_to_file can_open N str else []) @
      [Print (''Full number: '' @ str @ nl)]" if "d \<le> 100"
  proof -
    have "SAVE \<or> sz a \<le> 1000000"
      using that by (simp add: sz)
    then show ?thesis
      using that
      by (simp add: print_fib_info_string [where sz = sz and a = a] sz display_full
          str_def)
  qed
  have cut: "print_fib_info sz can_open a N SAVE =
      print_digit_count N d # (if SAVE then save_to_file can_open N str else []) @
      [Print (''First 50 digits: '' @ take 50 str @ nl),
       Print (''Last 50 digits:  '' @ drop (d - 50) str @ nl)] \<and>
      length (take 50 str) = 50 \<and> length (drop (d - 50) str) = 50"
    if "100 < d" and "SAVE \<or> d \<le> 1000000"
  proof -
    have "SAVE \<or> sz a \<le> 1000000"
      using that by (simp add: sz)
    moreover have "display str d =
        [Print (''First 50 digits: '' @ take 50 str @ nl),
         Print (''Last 50 digits:  '' @ drop (d - 50) str @ nl)]"
      using that(1) by (simp add: display_cut d_def)
    ultimately show ?thesis
      using that(1)
      by (simp add: print_fib_info_string [where sz = sz and a = a] sz str_def [symmetric]
          d_def [symmetric])
  qed
  have dm: "print_fib_info sz can_open a N SAVE =
      [print_digit_count N d,
       Print (''First ~50 digits: '' @ mpz_get_str (a div 10 ^ (d - 50)) @ nl),
       Print (''Last 50 digits:   '' @ pad_left 50 (mpz_get_str (a mod 10 ^ 50)) @ nl)] \<and>
      mpz_get_str (a div 10 ^ (d - 50)) = take 50 str \<and>
      length (take 50 str) = 50 \<and>
      length (pad_left 50 (mpz_get_str (a mod 10 ^ 50))) = 50 \<and>
      (10 ^ 49 \<le> a mod 10 ^ 50 \<longrightarrow>
         pad_left 50 (mpz_get_str (a mod 10 ^ 50)) = drop (d - 50) str)"
    if "1000000 < d" and "\<not> SAVE"
  proof -
    have long: "50 < length (mpz_get_str a)"
      using that(1) by (simp add: d_def str_def)
    have "print_fib_info sz can_open a N SAVE =
        [print_digit_count N d,
         Print (''First ~50 digits: '' @ mpz_get_str (a div 10 ^ (d - 50)) @ nl),
         Print (''Last 50 digits:   '' @ pad_left 50 (mpz_get_str (a mod 10 ^ 50)) @ nl)]"
      using that
      by (simp add: print_fib_info_divmod [where sz = sz and a = a] sz print_divmod_def
          Let_def)
    moreover have "mpz_get_str (a div 10 ^ (d - 50)) = take 50 str"
      using first_digits_by_division [OF assms(1) long] by (simp add: d_def str_def)
    moreover have "length (take 50 str) = 50"
      using that(1) by (simp add: d_def)
    moreover have "length (pad_left 50 (mpz_get_str (a mod 10 ^ 50))) = 50"
      using assms(1) by (rule length_pad_left_remainder)
    moreover have "10 ^ 49 \<le> a mod 10 ^ 50 \<longrightarrow>
        pad_left 50 (mpz_get_str (a mod 10 ^ 50)) = drop (d - 50) str"
      using last_digits_by_modulo [OF assms(1) long] by (simp add: d_def str_def)
    ultimately show ?thesis
      by blast
  qed
  show ?thesis
    using count full cut dm unfolding d_def str_def by blast
qed

subsection \<open>Three results: 2, 105 and 1000001 digits\<close>

lemma F500_value: "fst (fast_fib_calc 500 (mpz_init, mpz_init)) = F500"
  by (simp add: fast_fib_calc.simps parity_fix_def frame_defs mpz_defs)

lemma F500_digits:
  "mpz_get_str F500 =
     ''139423224561697880139724382870407283950070256587697307264108962948325571622863290691557658876222521294125''"
proof -
  have "digits_value ''139423224561697880139724382870407283950070256587697307264108962948325571622863290691557658876222521294125'' =
      139423224561697880139724382870407283950070256587697307264108962948325571622863290691557658876222521294125"
    by (simp add: digits_value_def digit_value_def)
  moreover have "decimal (digits_value ''139423224561697880139724382870407283950070256587697307264108962948325571622863290691557658876222521294125'') =
      ''139423224561697880139724382870407283950070256587697307264108962948325571622863290691557658876222521294125''"
    by (rule decimal_digits_value) (simp_all add: isdigit_def)
  ultimately show ?thesis
    by (simp add: mpz_get_str_def)
qed

lemma F500_length: "length (mpz_get_str F500) = 105"
  by (simp add: F500_digits)

lemma F500_size: "exact_size F500 = 105"
  using F500_digits by (simp add: exact_size_def mpz_get_str_def)

lemma decimal_500: "decimal 500 = ''500''" and decimal_105: "decimal 105 = ''105''"
  by (simp_all add: decimal.simps digit_char_def)

lemma F500_shown:
  "print_fib_info exact_size (\<lambda>name. True) F500 500 False =
     [Print (''F(500) has 105 digits'' @ nl),
      Print (''First 50 digits: 13942322456169788013972438287040728395007025658769'' @ nl),
      Print (''Last 50 digits:  64108962948325571622863290691557658876222521294125'' @ nl)]"
  by (simp add: print_fib_info_def F500_size print_digit_count_def display_def F500_digits
      decimal_500 decimal_105)

text \<open>A number of 1000001 digits whose 50th digit from the right is 1.\<close>

lemma big_number:
  assumes "50 \<le> k"
  shows "(0::int) \<le> 10 ^ k + 10 ^ 49 \<and>
         k < length (mpz_get_str (10 ^ k + 10 ^ 49)) \<and>
         (10::int) ^ 49 \<le> (10 ^ k + 10 ^ 49) mod 10 ^ 50"
proof -
  have n: "nat (10 ^ k + 10 ^ 49 :: int) = 10 ^ k + 10 ^ 49"
    by (simp add: nat_add_distrib nat_power_eq)
  have nonneg: "(0::int) \<le> 10 ^ k + 10 ^ 49"
    by simp
  have len: "k < length (mpz_get_str (10 ^ k + 10 ^ 49))"
    unfolding mpz_get_str_nonneg [OF nonneg] n by (rule length_decimal_gt) simp
  obtain j where "k = 50 + j"
    using assms le_Suc_ex by blast
  then have "(10::int) ^ k = 10 ^ 50 * 10 ^ j"
    by (simp only: power_add)
  then have "(10 ^ k + 10 ^ 49 :: int) mod 10 ^ 50 = 10 ^ 49"
    by simp
  then show ?thesis
    using len by simp
qed

theorem print_fib_info_format_witness:
  "(0::int) \<le> 55 \<and> exact_size 55 = length (mpz_get_str 55) \<and>
   length (mpz_get_str 55) \<le> 100 \<and>
   print_fib_info exact_size (\<lambda>name. True) 55 10 False =
     [Print (''F(10) has 2 digits'' @ nl), Print (''Full number: 55'' @ nl)] \<and>
   (0::int) \<le> F500 \<and> exact_size F500 = length (mpz_get_str F500) \<and>
   100 < length (mpz_get_str F500) \<and> (False \<or> length (mpz_get_str F500) \<le> 1000000) \<and>
   print_fib_info exact_size (\<lambda>name. True) F500 500 False =
     [Print (''F(500) has 105 digits'' @ nl),
      Print (''First 50 digits: 13942322456169788013972438287040728395007025658769'' @ nl),
      Print (''Last 50 digits:  64108962948325571622863290691557658876222521294125'' @ nl)] \<and>
   (0::int) \<le> 10 ^ 1000000 + 10 ^ 49 \<and>
   exact_size (10 ^ 1000000 + 10 ^ 49) = length (mpz_get_str (10 ^ 1000000 + 10 ^ 49)) \<and>
   1000000 < length (mpz_get_str (10 ^ 1000000 + 10 ^ 49)) \<and> \<not> False \<and>
   (10::int) ^ 49 \<le> (10 ^ 1000000 + 10 ^ 49) mod 10 ^ 50 \<and>
   print_fib_info exact_size (\<lambda>name. True) (10 ^ 1000000 + 10 ^ 49) 4784974 False =
     [print_digit_count 4784974 (length (mpz_get_str (10 ^ 1000000 + 10 ^ 49))),
      Print (''First ~50 digits: '' @ take 50 (mpz_get_str (10 ^ 1000000 + 10 ^ 49)) @ nl),
      Print (''Last 50 digits:   '' @
             drop (length (mpz_get_str (10 ^ 1000000 + 10 ^ 49)) - 50)
               (mpz_get_str (10 ^ 1000000 + 10 ^ 49)) @ nl)]"
proof -
  let ?open = "\<lambda>name :: string. True"
  let ?big = "10 ^ 1000000 + 10 ^ 49 :: int"
  have a1: "(0::int) \<le> 55"
    by simp
  have a2: "exact_size 55 = length (mpz_get_str 55)"
    using a1 by (rule exact_size_nonneg)
  have a3: "length (mpz_get_str 55) \<le> 100"
    by (simp add: mpz_get_str_def decimal.simps)
  have a4: "print_fib_info exact_size ?open 55 10 False =
      [Print (''F(10) has 2 digits'' @ nl), Print (''Full number: 55'' @ nl)]"
    using print_fib_info_format [where a = 55 and sz = exact_size and can_open = ?open
        and N = 10 and SAVE = False, OF a1 a2]
      a3
    by (simp add: print_digit_count_def mpz_get_str_def decimal.simps digit_char_def)
  have b1: "(0::int) \<le> F500"
    by simp
  have b2: "exact_size F500 = length (mpz_get_str F500)"
    using b1 by (rule exact_size_nonneg)
  have b3: "100 < length (mpz_get_str F500)"
    by (simp add: F500_digits)
  have b4: "False \<or> length (mpz_get_str F500) \<le> 1000000"
    by (simp add: F500_digits)
  have b5: "print_fib_info exact_size ?open F500 500 False =
     [Print (''F(500) has 105 digits'' @ nl),
      Print (''First 50 digits: 13942322456169788013972438287040728395007025658769'' @ nl),
      Print (''Last 50 digits:  64108962948325571622863290691557658876222521294125'' @ nl)]"
    using print_fib_info_format [where a = F500 and sz = exact_size and can_open = ?open
        and N = 500 and SAVE = False, OF b1 b2, unfolded F500_length]
    by (simp add: F500_digits print_digit_count_def decimal_500 decimal_105)
  have k: "(50::nat) \<le> 1000000"
    by simp
  have c1: "0 \<le> ?big"
    using big_number [OF k] by (rule conjunct1)
  have c2: "exact_size ?big = length (mpz_get_str ?big)"
    using c1 by (rule exact_size_nonneg)
  have c3: "1000000 < length (mpz_get_str ?big)"
    using big_number [OF k] by blast
  have c4: "\<not> False"
    by (rule notI)
  have c5: "10 ^ 49 \<le> ?big mod 10 ^ 50"
    using big_number [OF k] by blast
  note fmt = print_fib_info_format [where a = ?big and sz = exact_size and can_open = ?open
      and N = 4784974 and SAVE = False, OF c1 c2]
  have out: "print_fib_info exact_size ?open ?big 4784974 False =
      [print_digit_count 4784974 (length (mpz_get_str ?big)),
       Print (''First ~50 digits: '' @
              mpz_get_str (?big div 10 ^ (length (mpz_get_str ?big) - 50)) @ nl),
       Print (''Last 50 digits:   '' @ pad_left 50 (mpz_get_str (?big mod 10 ^ 50)) @ nl)]"
    using fmt c3 c4 by blast
  have quotient: "mpz_get_str (?big div 10 ^ (length (mpz_get_str ?big) - 50)) =
      take 50 (mpz_get_str ?big)"
    using fmt c3 c4 by blast
  have remainder: "pad_left 50 (mpz_get_str (?big mod 10 ^ 50)) =
      drop (length (mpz_get_str ?big) - 50) (mpz_get_str ?big)"
    using fmt c3 c4 c5 by blast
  note c6 = out [unfolded quotient remainder]
  show ?thesis
    by (intro conjI) (fact a1 a2 a3 a4 b1 b2 b3 b4 b5 c1 c2 c3 c4 c5 c6)+
qed

text \<open>
  Outside the scope of that theorem: \<open>mpz_sizeinbase\<close> may report one digit too many.
  For \<open>F(480)\<close>, which has 100 digits, a report of 101 announces 101 digits and makes
  line 176 take its first branch, where line 179 prints 49 digits.
\<close>

lemma F480_value: "fst (fast_fib_calc 480 (mpz_init, mpz_init)) = F480"
  by (simp add: fast_fib_calc.simps parity_fix_def frame_defs mpz_defs)

lemma F480_digits:
  "mpz_get_str F480 =
     ''9216845717656874712980450562726202415567360565980794777111390850331644813674856981646960226192287360''"
proof -
  have "digits_value ''9216845717656874712980450562726202415567360565980794777111390850331644813674856981646960226192287360'' =
      9216845717656874712980450562726202415567360565980794777111390850331644813674856981646960226192287360"
    by (simp add: digits_value_def digit_value_def)
  moreover have "decimal (digits_value ''9216845717656874712980450562726202415567360565980794777111390850331644813674856981646960226192287360'') =
      ''9216845717656874712980450562726202415567360565980794777111390850331644813674856981646960226192287360''"
    by (rule decimal_digits_value) (simp_all add: isdigit_def)
  ultimately show ?thesis
    by (simp add: mpz_get_str_def)
qed

lemma decimal_480: "decimal 480 = ''480''" and decimal_101: "decimal 101 = ''101''"
  by (simp_all add: decimal.simps digit_char_def)

lemma F480_shown_over:
  "exact_size F480 = 100 \<and> over_size F480 = 101 \<and>
   print_fib_info over_size (\<lambda>name. True) F480 480 False =
     [Print (''F(480) has 101 digits'' @ nl),
      Print (''First 50 digits: 92168457176568747129804505627262024155673605659807'' @ nl),
      Print (''Last 50 digits:  4777111390850331644813674856981646960226192287360'' @ nl)]"
proof -
  have e: "exact_size F480 = 100"
    using F480_digits by (simp add: exact_size_def mpz_get_str_def)
  then have o: "over_size F480 = 101"
    by (simp add: over_size_def)
  show ?thesis
    by (simp add: e o print_fib_info_def print_digit_count_def display_def F480_digits
        decimal_480 decimal_101)
qed

text \<open>
  C8, as the specification has it, fails for \<open>F(500)\<close> without the save flag: the number
  has 105 digits, more than 100, and is not persisted, yet its digits are cut out of the
  decimal string (the lines \<open>First 50 digits:\<close> and \<open>Last 50 digits:\<close> of lines 178 and
  179) and not obtained by division and modulo (the lines of 131 and 132).
\<close>

theorem print_fib_info_counterexample:
  "fst (fast_fib_calc 500 (mpz_init, mpz_init)) = F500 \<and>
   exact_size F500 = 105 \<and>
   print_fib_info exact_size (\<lambda>name. True) F500 500 False =
     [Print (''F(500) has 105 digits'' @ nl),
      Print (''First 50 digits: 13942322456169788013972438287040728395007025658769'' @ nl),
      Print (''Last 50 digits:  64108962948325571622863290691557658876222521294125'' @ nl)] \<and>
   print_digit_count 500 105 # print_divmod F500 105 =
     [Print (''F(500) has 105 digits'' @ nl),
      Print (''First ~50 digits: 13942322456169788013972438287040728395007025658769'' @ nl),
      Print (''Last 50 digits:   64108962948325571622863290691557658876222521294125'' @ nl)] \<and>
   print_fib_info exact_size (\<lambda>name. True) F500 500 False \<noteq>
     print_digit_count 500 105 # print_divmod F500 105"
proof -
  have q: "mpz_get_str (F500 div 10 ^ (105 - 50)) =
      ''13942322456169788013972438287040728395007025658769''"
    using first_digits_by_division [of F500] by (simp add: F500_digits)
  have r: "pad_left 50 (mpz_get_str (F500 mod 10 ^ 50)) =
      ''64108962948325571622863290691557658876222521294125''"
    using last_digits_by_modulo [of F500] by (simp add: F500_digits)
  have dm: "print_digit_count 500 105 # print_divmod F500 105 =
     [Print (''F(500) has 105 digits'' @ nl),
      Print (''First ~50 digits: 13942322456169788013972438287040728395007025658769'' @ nl),
      Print (''Last 50 digits:   64108962948325571622863290691557658876222521294125'' @ nl)]"
    using q r by (simp add: print_divmod_def print_digit_count_def decimal_500 decimal_105)
  have "print_fib_info exact_size (\<lambda>name. True) F500 500 False \<noteq>
     print_digit_count 500 105 # print_divmod F500 105"
    unfolding dm F500_shown by simp
  then show ?thesis
    using F500_value F500_size F500_shown dm by blast
qed

subsection \<open>A file that cannot be opened\<close>

lemma compute_and_report_save:
  "compute_and_report sz can_open N True =
     [Print (''Computing F('' @ decimal N @ '')...'' @ nl @ nl),
      Print (''Result will be saved to file.'' @ nl),
      Compute N, Print_timing] @
     print_fib_info sz can_open (fst (fast_fib_calc N (mpz_init, mpz_init))) N True @
     [Print (nl @ ''Performance summary:'' @ nl), Print_timing]"
  by (simp add: compute_and_report_def Let_def)

text \<open>
  C9. The run \<open>main\<close> makes with the save flag set, the index \<open>N\<close> and a file that
  \<open>fopen\<close> cannot open, for a count \<open>mpz_sizeinbase\<close> reports within its contract
  (at most one more than the number of digits):
  after the line of the digit count the failure is reported in two lines, then the
  result \<open>F(N)\<close> is displayed, in full when the count is at most 100 and else by the two
  lines of its first and last digits, 50 each when the count is exact; \<open>main\<close> goes on
  to the performance summary and returns 0. The run where the file opens differs in the
  two lines of the report and in the file, not in what is displayed nor in the exit
  status. Nothing is written.
\<close>

theorem unwritable_file_not_fatal:
  assumes "parse_args prog args 20000000 False = Inr (N, True)"
    and "\<not> can_open (FILENAME N)"
    and "a = fst (fast_fib_calc N (mpz_init, mpz_init))"
    and "sz a \<le> length (mpz_get_str a) + 1"
  shows
    "a = fib_rec N \<and>
     main sz can_open (prog # args) =
       (0, [Print (''Computing F('' @ decimal N @ '')...'' @ nl @ nl),
            Print (''Result will be saved to file.'' @ nl),
            Compute N, Print_timing,
            print_digit_count N (sz a),
            Print (''Writing to file '' @ FILENAME N @ ''... ''),
            Print (''failed.'' @ nl),
            Print (''Couldn'' @ apostrophe @ ''t create file '' @ FILENAME N @ nl)] @
           (if 100 < sz a
            then [Print (''First 50 digits: '' @ take 50 (mpz_get_str a) @ nl),
                  Print (''Last 50 digits:  '' @ drop (sz a - 50) (mpz_get_str a) @ nl)]
            else [Print (''Full number: '' @ mpz_get_str a @ nl)]) @
           [Print (nl @ ''Performance summary:'' @ nl), Print_timing]) \<and>
     main sz (\<lambda>name. True) (prog # args) =
       (0, [Print (''Computing F('' @ decimal N @ '')...'' @ nl @ nl),
            Print (''Result will be saved to file.'' @ nl),
            Compute N, Print_timing,
            print_digit_count N (sz a),
            Print (''Writing to file '' @ FILENAME N @ ''... ''),
            Write_file (FILENAME N) (''F('' @ decimal N @ '') = '' @ mpz_get_str a @ nl),
            Print (''Number saved to: '' @ FILENAME N @ nl)] @
           (if 100 < sz a
            then [Print (''First 50 digits: '' @ take 50 (mpz_get_str a) @ nl),
                  Print (''Last 50 digits:  '' @ drop (sz a - 50) (mpz_get_str a) @ nl)]
            else [Print (''Full number: '' @ mpz_get_str a @ nl)]) @
           [Print (nl @ ''Performance summary:'' @ nl), Print_timing]) \<and>
     (100 < sz a \<longrightarrow> length (take 50 (mpz_get_str a)) = 50) \<and>
     (100 < sz a \<and> sz a = length (mpz_get_str a) \<longrightarrow>
        length (drop (sz a - 50) (mpz_get_str a)) = 50) \<and>
     fst (main sz can_open (prog # args)) = fst (main sz (\<lambda>name. True) (prog # args)) \<and>
     files_written (snd (main sz can_open (prog # args))) = []"
proof -
  define shown where "shown =
     (if 100 < sz a
      then [Print (''First 50 digits: '' @ take 50 (mpz_get_str a) @ nl),
            Print (''Last 50 digits:  '' @ drop (sz a - 50) (mpz_get_str a) @ nl)]
      else [Print (''Full number: '' @ mpz_get_str a @ nl)])"
  have is_fib: "a = fib_rec N"
    by (simp add: assms(3) fast_fib_calc_fib)
  have disp: "display (mpz_get_str a) (sz a) = shown"
    using assms(4) by (auto simp add: shown_def display_def)
  have info: "print_fib_info sz c a N True =
      print_digit_count N (sz a) # save_to_file c N (mpz_get_str a) @ shown" for c
    by (simp add: print_fib_info_string disp)
  have run: "main sz c (prog # args) = (0, compute_and_report sz c N True)" for c
    using assms(1) by (simp add: main_def)
  have closed: "main sz can_open (prog # args) =
      (0, [Print (''Computing F('' @ decimal N @ '')...'' @ nl @ nl),
           Print (''Result will be saved to file.'' @ nl),
           Compute N, Print_timing,
           print_digit_count N (sz a),
           Print (''Writing to file '' @ FILENAME N @ ''... ''),
           Print (''failed.'' @ nl),
           Print (''Couldn'' @ apostrophe @ ''t create file '' @ FILENAME N @ nl)] @
          shown @ [Print (nl @ ''Performance summary:'' @ nl), Print_timing])"
    using assms(2)
    by (simp add: run compute_and_report_save assms(3) [symmetric] info save_to_file_def)
  have opened: "main sz (\<lambda>name. True) (prog # args) =
      (0, [Print (''Computing F('' @ decimal N @ '')...'' @ nl @ nl),
           Print (''Result will be saved to file.'' @ nl),
           Compute N, Print_timing,
           print_digit_count N (sz a),
           Print (''Writing to file '' @ FILENAME N @ ''... ''),
           Write_file (FILENAME N) (''F('' @ decimal N @ '') = '' @ mpz_get_str a @ nl),
           Print (''Number saved to: '' @ FILENAME N @ nl)] @
          shown @ [Print (nl @ ''Performance summary:'' @ nl), Print_timing])"
    by (simp add: run compute_and_report_save assms(3) [symmetric] info save_to_file_def)
  have len_first: "100 < sz a \<longrightarrow> length (take 50 (mpz_get_str a)) = 50"
    using assms(4) by simp
  have len_last: "100 < sz a \<and> sz a = length (mpz_get_str a) \<longrightarrow>
      length (drop (sz a - 50) (mpz_get_str a)) = 50"
    by auto
  have status: "fst (main sz can_open (prog # args)) =
      fst (main sz (\<lambda>name. True) (prog # args))"
    by (simp add: run)
  have none: "files_written (snd (main sz can_open (prog # args))) = []"
    unfolding closed
    by (simp add: files_written_append print_digit_count_def shown_def)
  show ?thesis
    using is_fib closed opened len_first len_last status none unfolding shown_def by blast
qed

theorem unwritable_file_not_fatal_witness:
  "parse_args ''./fib'' [''-s'', ''500''] 20000000 False = Inr (500, True) \<and>
   \<not> (\<lambda>name. False) (FILENAME 500) \<and>
   F500 = fst (fast_fib_calc 500 (mpz_init, mpz_init)) \<and>
   exact_size F500 \<le> length (mpz_get_str F500) + 1 \<and>
   100 < exact_size F500 \<and> exact_size F500 = length (mpz_get_str F500) \<and>
   F500 = fib_rec 500 \<and>
   main exact_size (\<lambda>name. False) [''./fib'', ''-s'', ''500''] =
     (0, [Print (''Computing F(500)...'' @ nl @ nl),
          Print (''Result will be saved to file.'' @ nl),
          Compute 500, Print_timing,
          Print (''F(500) has 105 digits'' @ nl),
          Print ''Writing to file Fibonacci_500.txt... '',
          Print (''failed.'' @ nl),
          Print (''Couldn'' @ apostrophe @ ''t create file Fibonacci_500.txt'' @ nl),
          Print (''First 50 digits: 13942322456169788013972438287040728395007025658769'' @ nl),
          Print (''Last 50 digits:  64108962948325571622863290691557658876222521294125'' @ nl),
          Print (nl @ ''Performance summary:'' @ nl), Print_timing]) \<and>
   length (take 50 (mpz_get_str F500)) = 50 \<and>
   length (drop (exact_size F500 - 50) (mpz_get_str F500)) = 50 \<and>
   files_written (snd (main exact_size (\<lambda>name. False) [''./fib'', ''-s'', ''500''])) = []"
proof -
  have s: "strtoul ''500'' = (500, [])"
    by (simp add: strtoul_defs)
  have h1: "parse_args ''./fib'' [''-s'', ''500''] 20000000 False = Inr (500, True)"
    by (simp add: s)
  have h2: "\<not> (\<lambda>name. False) (FILENAME 500)"
    by simp
  have h3: "F500 = fst (fast_fib_calc 500 (mpz_init, mpz_init))"
    by (simp add: F500_value)
  have h5: "exact_size F500 \<le> length (mpz_get_str F500) + 1"
    by (simp add: F500_size F500_length)
  have h6: "100 < exact_size F500" "exact_size F500 = length (mpz_get_str F500)"
    by (simp_all add: F500_size F500_length)
  note run = unwritable_file_not_fatal [where sz = exact_size and a = F500 and N = 500
      and prog = "''./fib''" and args = "[''-s'', ''500'']" and can_open = "\<lambda>name. False",
      OF h1 h2 h3 h5, unfolded F500_size]
  have v: "F500 = fib_rec 500"
    using run by (rule conjunct1)
  have t: "main exact_size (\<lambda>name. False) [''./fib'', ''-s'', ''500''] =
     (0, [Print (''Computing F(500)...'' @ nl @ nl),
          Print (''Result will be saved to file.'' @ nl),
          Compute 500, Print_timing,
          Print (''F(500) has 105 digits'' @ nl),
          Print ''Writing to file Fibonacci_500.txt... '',
          Print (''failed.'' @ nl),
          Print (''Couldn'' @ apostrophe @ ''t create file Fibonacci_500.txt'' @ nl),
          Print (''First 50 digits: 13942322456169788013972438287040728395007025658769'' @ nl),
          Print (''Last 50 digits:  64108962948325571622863290691557658876222521294125'' @ nl),
          Print (nl @ ''Performance summary:'' @ nl), Print_timing])"
    using run [THEN conjunct2, THEN conjunct1]
    by (simp add: F500_digits print_digit_count_def decimal_500 decimal_105 FILENAME_def
        del: parse_args.simps)
  have l1: "length (take 50 (mpz_get_str F500)) = 50"
    using run by simp
  have l2: "length (drop (exact_size F500 - 50) (mpz_get_str F500)) = 50"
    using run by (simp add: F500_size F500_length)
  have w: "files_written (snd (main exact_size (\<lambda>name. False) [''./fib'', ''-s'', ''500''])) = []"
    using run by blast
  show ?thesis
    by (intro conjI) (fact h1 h2 h3 h5 h6 v t l1 l2 w)+
qed

end
